theory Spec2Isabelle
  imports Main "HOL-Library.Word"
begin

section \<open>pkg/arc: the reference-counted cell\<close>

text \<open>
  The Go package keeps every cell in a heap block \<open>arcInternal\<close> (the value and a signed
  64-bit counter) and hands out handles that hold an untyped pointer to the block, or nil.
  The blocks live in a store indexed by addresses; a handle is a value that the methods
  take and give back, since \<open>Drop\<close>, \<open>TryUnwrap\<close>, \<open>Swap\<close> and \<open>Reset\<close> assign to
  its pointer field. The atomic operations are executed one at a time.
\<close>

type_synonym addr = nat

record 'a arcInternal =
  data :: 'a
  ref :: "64 word"

record 'a heap =
  mem :: "addr \<Rightarrow> 'a arcInternal"
  fresh :: addr

record Arc =
  ptr :: "addr option"

record Weak =
  wptr :: "addr option"

text \<open>\<open>sync/atomic\<close> on the counter of block \<open>p\<close>.\<close>

definition AddInt64 :: "'a heap \<Rightarrow> addr \<Rightarrow> 64 word \<Rightarrow> 'a heap \<times> 64 word" where
  "AddInt64 s p delta =
     (let v = ref (mem s p) + delta
      in (s\<lparr>mem := (mem s)(p := (mem s p)\<lparr>ref := v\<rparr>)\<rparr>, v))"

definition LoadInt64 :: "'a heap \<Rightarrow> addr \<Rightarrow> 64 word" where
  "LoadInt64 s p = ref (mem s p)"

definition CompareAndSwapInt64 :: "'a heap \<Rightarrow> addr \<Rightarrow> 64 word \<Rightarrow> 64 word \<Rightarrow> 'a heap \<times> bool" where
  "CompareAndSwapInt64 s p old new =
     (if ref (mem s p) = old
      then (s\<lparr>mem := (mem s)(p := (mem s p)\<lparr>ref := new\<rparr>)\<rparr>, True)
      else (s, False))"

text \<open>Reading and writing through a \<open>*T\<close> that points at the value of block \<open>p\<close>.\<close>

definition load :: "'a heap \<Rightarrow> addr \<Rightarrow> 'a" where
  "load s p = data (mem s p)"

definition store :: "'a heap \<Rightarrow> addr \<Rightarrow> 'a \<Rightarrow> 'a heap" where
  "store s p v = s\<lparr>mem := (mem s)(p := (mem s p)\<lparr>data := v\<rparr>)\<rparr>"

subsection \<open>Strong handles\<close>

definition NewArc :: "'a heap \<Rightarrow> 'a \<Rightarrow> 'a heap \<times> Arc" where
  "NewArc s v =
     (s\<lparr>mem := (mem s)(fresh s := \<lparr>data = v, ref = 1\<rparr>), fresh := Suc (fresh s)\<rparr>,
      \<lparr>ptr = Some (fresh s)\<rparr>)"

text \<open>A result of type \<open>*Arc[T]\<close> is \<open>None\<close> for the nil pointer.\<close>

definition Clone :: "'a heap \<Rightarrow> Arc \<Rightarrow> 'a heap \<times> Arc option" where
  "Clone s a =
     (case ptr a of
        None \<Rightarrow> (s, None)
      | Some p \<Rightarrow> (fst (AddInt64 s p 1), Some \<lparr>ptr = ptr a\<rparr>))"

text \<open>\<open>Deref\<close> gives the address of the value inside the block, or nil.\<close>

definition Deref :: "Arc \<Rightarrow> addr option" where
  "Deref a = (case ptr a of None \<Rightarrow> None | Some p \<Rightarrow> Some p)"

definition StrongCount :: "'a heap \<Rightarrow> Arc \<Rightarrow> 64 word" where
  "StrongCount s a = (case ptr a of None \<Rightarrow> 0 | Some p \<Rightarrow> LoadInt64 s p)"

definition Drop :: "'a heap \<Rightarrow> Arc \<Rightarrow> 'a heap \<times> Arc" where
  "Drop s a =
     (case ptr a of
        None \<Rightarrow> (s, a)
      | Some p \<Rightarrow>
          (case AddInt64 s p (- 1) of
             (s', v) \<Rightarrow> if v = 0 then (s', a\<lparr>ptr := None\<rparr>) else (s', a)))"


text \<open>
  \<open>TryUnwrap\<close> returns \<open>(T, bool)\<close>: \<open>Some v\<close> stands for \<open>(v, true)\<close> and \<open>None\<close> for
  the zero value with \<open>false\<close>. Its retry loop has no bound in the source, so the loop is
  a partial function and \<open>None\<close> at the outer level would mean that it never returns.
\<close>

partial_function (option) TryUnwrap_loop ::
  "'a heap \<Rightarrow> Arc \<Rightarrow> addr \<Rightarrow> ('a heap \<times> Arc \<times> 'a option) option" where
  "TryUnwrap_loop s a p =
     (let current = LoadInt64 s p
      in if current \<noteq> 1 then Some (s, a, None)
         else (case CompareAndSwapInt64 s p 1 0 of
                 (s', swapped) \<Rightarrow>
                   if swapped then Some (s', a\<lparr>ptr := None\<rparr>, Some (data (mem s' p)))
                   else TryUnwrap_loop s' a p))"

definition TryUnwrap :: "'a heap \<Rightarrow> Arc \<Rightarrow> ('a heap \<times> Arc \<times> 'a option) option" where
  "TryUnwrap s a =
     (case ptr a of
        None \<Rightarrow> Some (s, a, None)
      | Some p \<Rightarrow> TryUnwrap_loop s a p)"

subsection \<open>Weak handles\<close>

definition Downgrade :: "Arc \<Rightarrow> Weak option" where
  "Downgrade a = (case ptr a of None \<Rightarrow> None | Some p \<Rightarrow> Some \<lparr>wptr = ptr a\<rparr>)"

text \<open>The comparison \<open>current > 1\<close> is one of signed 64-bit integers.\<close>

definition Upgrade :: "'a heap \<Rightarrow> Weak \<Rightarrow> 'a heap \<times> Arc option" where
  "Upgrade s w =
     (case wptr w of
        None \<Rightarrow> (s, None)
      | Some p \<Rightarrow>
          (case AddInt64 s p 1 of
             (s', current) \<Rightarrow>
               if 1 < sint current then (s', Some \<lparr>ptr = wptr w\<rparr>)
               else (fst (AddInt64 s' p (- 1)), None)))"

subsection \<open>Scoped access and derived operations\<close>



text \<open>
  \<open>MergeArcs\<close> takes \<open>*Arc[T]\<close> arguments, any of which may be the nil pointer; it
  skips those, and dereferences what \<open>Deref\<close> returns for the others without a check.
\<close>

datatype panic = NilDereference

fun MergeArcs_values :: "'a heap \<Rightarrow> 'a \<Rightarrow> Arc option list \<Rightarrow> panic + 'a list" where
  "MergeArcs_values s zero [] = Inr []"
| "MergeArcs_values s zero (None # arcs) =
     (case MergeArcs_values s zero arcs of
        Inl e \<Rightarrow> Inl e
      | Inr values \<Rightarrow> Inr (zero # values))"
| "MergeArcs_values s zero (Some arc # arcs) =
     (case Deref arc of
        None \<Rightarrow> Inl NilDereference
      | Some p \<Rightarrow>
          (case MergeArcs_values s zero arcs of
             Inl e \<Rightarrow> Inl e
           | Inr values \<Rightarrow> Inr (load s p # values)))"

definition MergeArcs ::
  "'a heap \<Rightarrow> 'a list heap \<Rightarrow> 'a \<Rightarrow> Arc option list \<Rightarrow> panic + ('a list heap \<times> Arc)" where
  "MergeArcs s t zero arcs =
     (case MergeArcs_values s zero arcs of
        Inl e \<Rightarrow> Inl e
      | Inr values \<Rightarrow> Inr (NewArc t values))"


definition CompareAndSwap :: "'a heap \<Rightarrow> Arc \<Rightarrow> 'a \<Rightarrow> 'a \<Rightarrow> 'a heap \<times> bool" where
  "CompareAndSwap s a oldValue newValue =
     (case ptr a of
        None \<Rightarrow> (s, False)
      | Some p \<Rightarrow>
          if LoadInt64 s p \<noteq> 1 then (s, False)
          else (store s p newValue, True))"



record Ref =
  arc :: "Arc option"


definition Ref_Deref :: "Ref \<Rightarrow> addr option" where
  "Ref_Deref r = (case arc r of None \<Rightarrow> None | Some a \<Rightarrow> Deref a)"

definition Release :: "'a heap \<Rightarrow> Ref \<Rightarrow> 'a heap \<times> Ref" where
  "Release s r =
     (case arc r of
        None \<Rightarrow> (s, r)
      | Some a \<Rightarrow> (fst (Drop s a), r\<lparr>arc := None\<rparr>))"



subsection \<open>Programs over one cell\<close>

text \<open>
  A program that constructs one cell and then clones and drops handles to it. The
  handles are the \<open>Arc\<close> structs the program holds, numbered in the order in which they
  came into being; \<open>OpClone i\<close> calls \<open>Clone\<close> on handle \<open>i\<close> and keeps the handle it
  returns unless that is nil, \<open>OpDrop i\<close> calls \<open>Drop\<close> on handle \<open>i\<close>. A number that
  names no handle names no call.
\<close>

record 'a world =
  hp :: "'a heap"
  handles :: "Arc list"

datatype op = OpClone nat | OpDrop nat

definition new_world :: "'a heap \<Rightarrow> 'a \<Rightarrow> 'a world" where
  "new_world s v = (case NewArc s v of (s', a) \<Rightarrow> \<lparr>hp = s', handles = [a]\<rparr>)"

fun step :: "'a world \<Rightarrow> op \<Rightarrow> 'a world" where
  "step w (OpClone i) =
     (if i < length (handles w)
      then (case Clone (hp w) (handles w ! i) of
              (s', None) \<Rightarrow> w\<lparr>hp := s'\<rparr>
            | (s', Some c) \<Rightarrow> w\<lparr>hp := s', handles := handles w @ [c]\<rparr>)
      else w)"
| "step w (OpDrop i) =
     (if i < length (handles w)
      then (case Drop (hp w) (handles w ! i) of
              (s', a') \<Rightarrow> w\<lparr>hp := s', handles := (handles w)[i := a']\<rparr>)
      else w)"

definition run :: "'a world \<Rightarrow> op list \<Rightarrow> 'a world" where
  "run w ops = foldl step w ops"

fun clones :: "op list \<Rightarrow> nat" where
  "clones [] = 0"
| "clones (OpClone i # ops) = Suc (clones ops)"
| "clones (OpDrop i # ops) = clones ops"

fun drops :: "op list \<Rightarrow> nat" where
  "drops [] = 0"
| "drops (OpClone i # ops) = drops ops"
| "drops (OpDrop i # ops) = Suc (drops ops)"

text \<open>
  A call of \<open>Drop\<close> releases when it takes the branch for a post-decrement count of zero;
  \<open>releases\<close> counts the calls of a program that do.
\<close>

definition Drop_releases :: "'a heap \<Rightarrow> Arc \<Rightarrow> bool" where
  "Drop_releases s a =
     (case ptr a of
        None \<Rightarrow> False
      | Some p \<Rightarrow> snd (AddInt64 s p (- 1)) = 0)"

fun step_releases :: "'a world \<Rightarrow> op \<Rightarrow> bool" where
  "step_releases w (OpClone i) = False"
| "step_releases w (OpDrop i) =
     (i < length (handles w) \<and> Drop_releases (hp w) (handles w ! i))"

fun releases :: "'a world \<Rightarrow> op list \<Rightarrow> nat" where
  "releases w [] = 0"
| "releases w (x # ops) = (if step_releases w x then 1 else 0) + releases (step w x) ops"

text \<open>
  The discipline of an owner: every call is made on a handle the program holds and has
  not dropped before. \<open>D\<close> is the set of handles dropped so far and \<open>n\<close> the number of
  handles held.
\<close>

fun disciplined :: "nat set \<Rightarrow> nat \<Rightarrow> op list \<Rightarrow> bool" where
  "disciplined D n [] = True"
| "disciplined D n (OpClone i # ops) = (i < n \<and> i \<notin> D \<and> disciplined D (Suc n) ops)"
| "disciplined D n (OpDrop i # ops) = (i < n \<and> i \<notin> D \<and> disciplined (insert i D) n ops)"

text \<open>
  What a disciplined program keeps true of the block \<open>p\<close> it works on: the counter is
  the number of handles not yet dropped, those handles point to \<open>p\<close>, and a handle has
  lost its pointer only when none is left.
\<close>

definition owner_inv :: "addr \<Rightarrow> 'a world \<Rightarrow> nat set \<Rightarrow> bool" where
  "owner_inv p w D \<longleftrightarrow>
     D \<subseteq> {..<length (handles w)} \<and>
     ref (mem (hp w) p) = of_nat (length (handles w) - card D) \<and>
     (\<forall>i<length (handles w). i \<notin> D \<longrightarrow> ptr (handles w ! i) = Some p) \<and>
     (\<forall>i<length (handles w).
        ptr (handles w ! i) = Some p \<or>
        (ptr (handles w ! i) = None \<and> card D = length (handles w)))"

text \<open>A store with nothing allocated, for the concrete runs below.\<close>

definition heap0 :: "nat heap" where
  "heap0 = \<lparr>mem = (\<lambda>p. \<lparr>data = 0, ref = 0\<rparr>), fresh = 0\<rparr>"

section \<open>pkg/option: futures\<close>

text \<open>
  A future is a struct that a goroutine fills in and then closes the channel \<open>done\<close> of.
  Time is a count of instants: \<open>done_at\<close> is the instant at which \<open>done\<close> is closed,
  \<open>None\<close> when it never is. A Go function value that a goroutine runs maps the instant
  of its call to its value and the instant of its return, or to \<open>None\<close> when it never
  returns. The context is what the \<open>select\<close> of \<open>execute\<close> finds: \<open>None\<close> when
  \<open>ctx.Done()\<close> is not ready, the error of the context otherwise. \<open>zero\<close> is the zero
  value of the result type, with which Go initialises the field.
\<close>

datatype error = Canceled | DeadlineExceeded

record 'a futureImpl =
  result :: 'a
  done_at :: "nat option"
  err :: "error option"

definition execute ::
  "'a \<Rightarrow> error option \<Rightarrow> nat \<Rightarrow> (nat \<Rightarrow> ('a \<times> nat) option) \<Rightarrow> 'a futureImpl" where
  "execute zero ctx t fn =
     (case ctx of
        Some e \<Rightarrow> \<lparr>result = zero, done_at = Some t, err = Some e\<rparr>
      | None \<Rightarrow>
          (case fn t of
             None \<Rightarrow> \<lparr>result = zero, done_at = None, err = None\<rparr>
           | Some (v, t') \<Rightarrow> \<lparr>result = v, done_at = Some t', err = None\<rparr>))"

text \<open>\<open>New\<close> starts the goroutine; \<open>t\<close> is the instant at which it runs \<open>execute\<close>.\<close>

definition New ::
  "'a \<Rightarrow> error option \<Rightarrow> nat \<Rightarrow> (nat \<Rightarrow> ('a \<times> nat) option) \<Rightarrow> 'a futureImpl" where
  "New zero ctx t fn = execute zero ctx t fn"

text \<open>
  \<open>Get\<close> called at instant \<open>t\<close> returns the result once \<open>done\<close> is closed, so not before
  \<open>done_at\<close>; it blocks for ever on a future that never completes.
\<close>

definition Get :: "'a futureImpl \<Rightarrow> nat \<Rightarrow> ('a \<times> nat) option" where
  "Get f t = (case done_at f of None \<Rightarrow> None | Some d \<Rightarrow> Some (result f, max t d))"


text \<open>The loop of \<open>All\<close> stores the result of future \<open>i\<close> at index \<open>i\<close> of a slice of zero values.\<close>

function All_loop ::
  "'a futureImpl list \<Rightarrow> nat \<Rightarrow> 'a list \<Rightarrow> nat \<Rightarrow> ('a list \<times> nat) option" where
  "All_loop futures i results t =
     (if i < length futures
      then (case Get (futures ! i) t of
              None \<Rightarrow> None
            | Some (v, t') \<Rightarrow> All_loop futures (Suc i) (results[i := v]) t')
      else Some (results, t))"
  by pat_completeness auto
termination
  by (relation "measure (\<lambda>(futures, i, results, t). length futures - i)") auto

definition All ::
  "'a \<Rightarrow> error option \<Rightarrow> nat \<Rightarrow> 'a futureImpl list \<Rightarrow> 'a list futureImpl" where
  "All zero ctx t futures =
     New [] ctx t (\<lambda>t0. All_loop futures 0 (replicate (length futures) zero) t0)"


text \<open>A future that has completed normally with value \<open>v\<close> at instant \<open>d\<close>, for the concrete runs below.\<close>

definition fut :: "nat \<Rightarrow> nat \<Rightarrow> nat futureImpl" where
  "fut v d = \<lparr>result = v, done_at = Some d, err = None\<rparr>"

section \<open>Properties of the reference-counted cell\<close>

subsection \<open>The counter\<close>

lemma AddInt64_fst_ref: "ref (mem (fst (AddInt64 s p d)) p) = ref (mem s p) + d"
  by (simp add: AddInt64_def Let_def)

lemma AddInt64_snd: "snd (AddInt64 s p d) = ref (mem s p) + d"
  by (simp add: AddInt64_def Let_def)



lemma sint_succ64:
  "1 \<le> sint (r :: 64 word) \<Longrightarrow> sint r < 2 ^ 63 - 1 \<Longrightarrow> sint (r + 1) = sint r + 1"
  by (simp add: sint_word_add signed_take_bit_int_eq_self)

lemma Arc_ptr_update: "(a :: Arc)\<lparr>ptr := x\<rparr> = \<lparr>ptr = x\<rparr>"
  by (cases a) simp

lemma run_Nil: "run w [] = w"
  by (simp add: run_def)

lemma run_Cons: "run w (x # ops) = run (step w x) ops"
  by (simp add: run_def)

lemma card_dropped_le: "D \<subseteq> {..<n} \<Longrightarrow> card D \<le> n"
  using subset_eq_atLeast0_lessThan_card by (simp add: lessThan_atLeast0)

lemma card_dropped_less: "D \<subseteq> {..<n} \<Longrightarrow> i < n \<Longrightarrow> i \<notin> D \<Longrightarrow> card D < n"
proof -
  assume a: "D \<subseteq> {..<n}" "i < n" "i \<notin> D"
  then have "D \<subset> {..<n}" by auto
  then have "card D < card {..<n}" by (intro psubset_card_mono) auto
  then show ?thesis by simp
qed

lemma finite_dropped: "D \<subseteq> {..<(n::nat)} \<Longrightarrow> finite D"
  by (rule finite_subset) auto

lemma sint_of_nat64: "n < 2 ^ 63 \<Longrightarrow> sint (of_nat n :: 64 word) = int n"
  by (simp add: signed_of_nat signed_take_bit_int_eq_self)

lemma of_nat64_eq_0: "n < 2 ^ 63 \<Longrightarrow> (of_nat n :: 64 word) = 0 \<longleftrightarrow> n = 0"
  using sint_of_nat64 [of n] by auto

subsection \<open>Disciplined programs keep the invariant\<close>

lemma step_clone_inv:
  assumes "owner_inv p w D" and "i < length (handles w)" and "i \<notin> D"
  shows "owner_inv p (step w (OpClone i)) D \<and>
         length (handles (step w (OpClone i))) = Suc (length (handles w))"
proof -
  let ?n = "length (handles w)"
  have D: "D \<subseteq> {..<?n}" and r: "ref (mem (hp w) p) = of_nat (?n - card D)"
    and live: "\<forall>j<?n. j \<notin> D \<longrightarrow> ptr (handles w ! j) = Some p"
    and all: "\<forall>j<?n. ptr (handles w ! j) = Some p \<or> (ptr (handles w ! j) = None \<and> card D = ?n)"
    using assms(1) by (simp_all add: owner_inv_def)
  have lt: "card D < ?n" using D assms(2,3) by (rule card_dropped_less)
  have pi: "ptr (handles w ! i) = Some p" using live assms(2,3) by simp
  have st: "step w (OpClone i) =
      w\<lparr>hp := fst (AddInt64 (hp w) p 1), handles := handles w @ [\<lparr>ptr = Some p\<rparr>]\<rparr>"
    using assms(2) pi by (simp add: Clone_def)
  have "ref (mem (fst (AddInt64 (hp w) p 1)) p) = of_nat (Suc ?n - card D)"
    using lt r by (simp add: AddInt64_def Let_def Suc_diff_le)
  moreover have "\<forall>j<Suc ?n. ptr ((handles w @ [\<lparr>ptr = Some p\<rparr>]) ! j) = Some p"
    using all lt by (auto simp: nth_append less_Suc_eq)
  moreover have "D \<subseteq> {..<Suc ?n}" using D by auto
  ultimately show ?thesis
    unfolding st owner_inv_def by simp
qed

lemma step_drop_inv:
  assumes "owner_inv p w D" and "i < length (handles w)" and "i \<notin> D"
    and "length (handles w) < 2 ^ 63"
  shows "owner_inv p (step w (OpDrop i)) (insert i D) \<and>
         length (handles (step w (OpDrop i))) = length (handles w) \<and>
         (step_releases w (OpDrop i) \<longleftrightarrow> Suc (card D) = length (handles w))"
proof -
  let ?n = "length (handles w)"
  have D: "D \<subseteq> {..<?n}" and r: "ref (mem (hp w) p) = of_nat (?n - card D)"
    and live: "\<forall>j<?n. j \<notin> D \<longrightarrow> ptr (handles w ! j) = Some p"
    and all: "\<forall>j<?n. ptr (handles w ! j) = Some p \<or> (ptr (handles w ! j) = None \<and> card D = ?n)"
    using assms(1) by (simp_all add: owner_inv_def)
  have lt: "card D < ?n" using D assms(2,3) by (rule card_dropped_less)
  have fin: "finite D" using D by (rule finite_dropped)
  have cd: "card (insert i D) = Suc (card D)" using fin assms(3) by simp
  have pi: "ptr (handles w ! i) = Some p" using live assms(2,3) by simp
  have allp: "\<forall>j<?n. ptr (handles w ! j) = Some p" using all lt by auto
  have dec: "ref (mem (hp w) p) - 1 = of_nat (?n - Suc (card D))"
    using lt r by (simp add: of_nat_diff)
  have z: "(of_nat (?n - Suc (card D)) :: 64 word) = 0 \<longleftrightarrow> ?n = Suc (card D)"
    using assms(4) lt by (subst of_nat64_eq_0) auto
  have rel: "step_releases w (OpDrop i) \<longleftrightarrow> Suc (card D) = ?n"
    using assms(2) pi dec z by (auto simp: Drop_releases_def AddInt64_def Let_def)
  have st: "step w (OpDrop i) =
      w\<lparr>hp := fst (AddInt64 (hp w) p (- 1)),
        handles := (handles w)[i := (if ?n = Suc (card D) then \<lparr>ptr = None\<rparr> else handles w ! i)]\<rparr>"
    using assms(2) pi dec z by (simp add: Drop_def AddInt64_def Let_def Arc_ptr_update)
  have "ref (mem (fst (AddInt64 (hp w) p (- 1))) p) = of_nat (?n - card (insert i D))"
    using dec by (simp add: AddInt64_def Let_def cd)
  moreover have "insert i D \<subseteq> {..<?n}" using D assms(2) by auto
  moreover have "\<forall>j<?n. j \<notin> insert i D \<longrightarrow>
      ptr ((handles w)[i := (if ?n = Suc (card D) then \<lparr>ptr = None\<rparr> else handles w ! i)] ! j) = Some p"
    using allp assms(2) by (auto simp: nth_list_update)
  moreover have "\<forall>j<?n.
      ptr ((handles w)[i := (if ?n = Suc (card D) then \<lparr>ptr = None\<rparr> else handles w ! i)] ! j) = Some p \<or>
      (ptr ((handles w)[i := (if ?n = Suc (card D) then \<lparr>ptr = None\<rparr> else handles w ! i)] ! j) = None \<and>
       card (insert i D) = ?n)"
    using allp cd assms(2) by (auto simp: nth_list_update)
  ultimately show ?thesis
    using rel unfolding st owner_inv_def by simp
qed


lemma disciplined_none_left:
  "D \<subseteq> {..<n} \<Longrightarrow> card D = n \<Longrightarrow> disciplined D n ops \<Longrightarrow> ops = []"
proof (cases ops)
  case Nil
  then show ?thesis by simp
next
  case (Cons x xs)
  assume a: "D \<subseteq> {..<n}" "card D = n" "disciplined D n ops"
  obtain i where i: "i < n" "i \<notin> D"
    using a(3) Cons by (cases x) auto
  with a(1) have "card D < n" by (rule card_dropped_less)
  with a(2) show ?thesis by simp
qed

lemma run_disciplined:
  "owner_inv p w D \<Longrightarrow> disciplined D (length (handles w)) ops \<Longrightarrow>
   length (handles w) + length ops < 2 ^ 63 \<Longrightarrow>
   \<exists>D'. owner_inv p (run w ops) D' \<and>
        length (handles (run w ops)) = length (handles w) + clones ops \<and>
        card D' = card D + drops ops"
proof (induction ops arbitrary: w D)
  case Nil
  then show ?case by (auto simp: run_def)
next
  case (Cons x ops)
  show ?case
  proof (cases x)
    case (OpClone i)
    have i: "i < length (handles w)" "i \<notin> D"
      and d: "disciplined D (Suc (length (handles w))) ops"
      using Cons.prems(2) OpClone by simp_all
    have s: "owner_inv p (step w x) D" "length (handles (step w x)) = Suc (length (handles w))"
      using step_clone_inv [OF Cons.prems(1) i] OpClone by simp_all
    have "\<exists>D'. owner_inv p (run (step w x) ops) D' \<and>
        length (handles (run (step w x) ops)) = length (handles (step w x)) + clones ops \<and>
        card D' = card D + drops ops"
      using Cons.prems(3) d s by (intro Cons.IH) simp_all
    then show ?thesis
      using s(2) OpClone by (simp add: run_Cons)
  next
    case (OpDrop i)
    have i: "i < length (handles w)" "i \<notin> D"
      and d: "disciplined (insert i D) (length (handles w)) ops"
      using Cons.prems(2) OpDrop by simp_all
    have n: "length (handles w) < 2 ^ 63" using Cons.prems(3) by simp
    have s: "owner_inv p (step w x) (insert i D)" "length (handles (step w x)) = length (handles w)"
      using step_drop_inv [OF Cons.prems(1) i n] OpDrop by simp_all
    have fin: "finite D" using Cons.prems(1) by (auto simp: owner_inv_def intro: finite_dropped)
    have "\<exists>D'. owner_inv p (run (step w x) ops) D' \<and>
        length (handles (run (step w x) ops)) = length (handles (step w x)) + clones ops \<and>
        card D' = card (insert i D) + drops ops"
      using Cons.prems(3) d s by (intro Cons.IH) simp_all
    then show ?thesis
      using s(2) OpDrop fin i(2) by (simp add: run_Cons)
  qed
qed

lemma releases_disciplined:
  "owner_inv p w D \<Longrightarrow> card D < length (handles w) \<Longrightarrow>
   disciplined D (length (handles w)) ops \<Longrightarrow>
   length (handles w) + length ops < 2 ^ 63 \<Longrightarrow>
   releases w ops = (if ref (mem (hp (run w ops)) p) = 0 then 1 else 0)"
proof (induction ops arbitrary: w D)
  case Nil
  have "ref (mem (hp w) p) = of_nat (length (handles w) - card D)"
    using Nil.prems(1) by (simp add: owner_inv_def)
  moreover have "(of_nat (length (handles w) - card D) :: 64 word) \<noteq> 0"
    using Nil.prems(2,4) by (subst of_nat64_eq_0) auto
  ultimately show ?case by (simp add: run_def)
next
  case (Cons x ops)
  show ?case
  proof (cases x)
    case (OpClone i)
    have i: "i < length (handles w)" "i \<notin> D"
      and d: "disciplined D (Suc (length (handles w))) ops"
      using Cons.prems(3) OpClone by simp_all
    have s: "owner_inv p (step w x) D" "length (handles (step w x)) = Suc (length (handles w))"
      using step_clone_inv [OF Cons.prems(1) i] OpClone by simp_all
    have "releases (step w x) ops = (if ref (mem (hp (run (step w x) ops)) p) = 0 then 1 else 0)"
      using Cons.prems(2,4) d s by (intro Cons.IH [of _ D]) simp_all
    then show ?thesis
      using OpClone by (simp add: run_Cons)
  next
    case (OpDrop i)
    have i: "i < length (handles w)" "i \<notin> D"
      and d: "disciplined (insert i D) (length (handles w)) ops"
      using Cons.prems(3) OpDrop by simp_all
    have n: "length (handles w) < 2 ^ 63" using Cons.prems(4) by simp
    have s: "owner_inv p (step w x) (insert i D)" "length (handles (step w x)) = length (handles w)"
      and rel: "step_releases w x \<longleftrightarrow> Suc (card D) = length (handles w)"
      using step_drop_inv [OF Cons.prems(1) i n] OpDrop by simp_all
    have fin: "finite D" using Cons.prems(1) by (auto simp: owner_inv_def intro: finite_dropped)
    have cd: "card (insert i D) = Suc (card D)" using fin i(2) by simp
    have sub: "insert i D \<subseteq> {..<length (handles w)}"
      using s by (simp add: owner_inv_def)
    show ?thesis
    proof (cases "Suc (card D) = length (handles w)")
      case True
      then have "ops = []"
        using disciplined_none_left [OF sub _ d] cd by simp
      moreover have "ref (mem (hp (step w x)) p) = 0"
        using s True cd by (simp add: owner_inv_def)
      ultimately show ?thesis
        using rel True by (simp add: run_Cons run_def)
    next
      case False
      then have lt: "card (insert i D) < length (handles (step w x))"
        using Cons.prems(2) cd s(2) by simp
      have "releases (step w x) ops = (if ref (mem (hp (run (step w x) ops)) p) = 0 then 1 else 0)"
        using Cons.prems(4) d s lt by (intro Cons.IH [of _ "insert i D"]) simp_all
      then show ?thesis
        using rel False by (simp add: run_Cons)
    qed
  qed
qed

lemma disciplined_take: "disciplined D n ops \<Longrightarrow> disciplined D n (take k ops)"
proof (induction ops arbitrary: D n k)
  case Nil
  then show ?case by simp
next
  case (Cons x ops)
  then show ?case by (cases k; cases x) auto
qed


lemma new_world_inv: "owner_inv (fresh s) (new_world s v) {}"
  by (simp add: owner_inv_def new_world_def NewArc_def)

lemma new_world_handles: "length (handles (new_world s v)) = 1"
  by (simp add: new_world_def NewArc_def)

lemma drops_le_length: "drops ops \<le> length ops"
  by (induction ops rule: drops.induct) auto

lemma clones_le_length: "clones ops \<le> length ops"
  by (induction ops rule: clones.induct) auto

lemma owner_inv_StrongCount:
  assumes "owner_inv p w D" and "h \<in> set (handles w)"
  shows "StrongCount (hp w) h = ref (mem (hp w) p)"
proof -
  obtain i where i: "i < length (handles w)" "handles w ! i = h"
    using assms(2) by (auto simp: in_set_conv_nth)
  then have "ptr h = Some p \<or> (ptr h = None \<and> card D = length (handles w))"
    using assms(1) by (auto simp: owner_inv_def)
  moreover have "ref (mem (hp w) p) = of_nat (length (handles w) - card D)"
    using assms(1) by (simp add: owner_inv_def)
  ultimately show ?thesis
    by (auto simp: StrongCount_def LoadInt64_def)
qed

subsection \<open>Release\<close>

text \<open>
  C1, as the code has it. A call of \<open>Drop\<close> that takes the counter from one to zero
  assigns nil to the pointer of the handle it was called on, and to nothing else: through
  that handle \<open>Deref\<close> and \<open>Clone\<close> return nil and \<open>StrongCount\<close> returns zero from
  then on. The block keeps its value, and any other handle whose pointer is the block
  still gets the address of that value from \<open>Deref\<close>.
\<close>

theorem Drop_to_zero_clears_own_handle:
  assumes "ptr a = Some p" and "StrongCount s a = 1"
  shows "\<exists>s'. Drop s a = (s', \<lparr>ptr = None\<rparr>) \<and> LoadInt64 s' p = 0 \<and>
           Deref \<lparr>ptr = None\<rparr> = None \<and> Clone s' \<lparr>ptr = None\<rparr> = (s', None) \<and>
           StrongCount s' \<lparr>ptr = None\<rparr> = 0 \<and>
           (\<forall>b. ptr b = Some p \<longrightarrow> Deref b = Some p) \<and> load s' p = load s p"
  using assms
  by (simp add: Drop_def AddInt64_def Let_def StrongCount_def LoadInt64_def Deref_def
      Clone_def load_def)

theorem Drop_to_zero_clears_own_handle_witness:
  "ptr \<lparr>ptr = Some 0\<rparr> = Some 0 \<and>
   StrongCount (fst (NewArc heap0 7)) \<lparr>ptr = Some 0\<rparr> = 1 \<and>
   snd (Drop (fst (NewArc heap0 7)) \<lparr>ptr = Some 0\<rparr>) = \<lparr>ptr = None\<rparr> \<and>
   LoadInt64 (fst (Drop (fst (NewArc heap0 7)) \<lparr>ptr = Some 0\<rparr>)) 0 = 0 \<and>
   load (fst (Drop (fst (NewArc heap0 7)) \<lparr>ptr = Some 0\<rparr>)) 0 = 7"
proof -
  have h1: "ptr \<lparr>ptr = Some 0\<rparr> = Some 0"
    by simp
  have h2: "StrongCount (fst (NewArc heap0 7)) \<lparr>ptr = Some 0\<rparr> = 1"
    by (simp add: StrongCount_def LoadInt64_def NewArc_def heap0_def)
  show ?thesis
    using Drop_to_zero_clears_own_handle [OF h1 h2] h2
    by (auto simp: load_def NewArc_def heap0_def)
qed

text \<open>
  C1, as the claim states it, fails. A cell is constructed with the value 7 and cloned;
  the clone is dropped, then the first handle, whose \<open>Drop\<close> takes the counter to zero
  and releases. The clone still holds its pointer: \<open>Deref\<close> through it returns the
  address of the value, and the value read there is the 7 of the released block.
\<close>

theorem clone_reads_released_block:
  "LoadInt64 (hp (run (new_world heap0 7) [OpClone 0, OpDrop 1, OpDrop 0])) 0 = 0 \<and>
   releases (new_world heap0 7) [OpClone 0, OpDrop 1, OpDrop 0] = 1 \<and>
   Deref (handles (run (new_world heap0 7) [OpClone 0, OpDrop 1, OpDrop 0]) ! 1) = Some 0 \<and>
   load (hp (run (new_world heap0 7) [OpClone 0, OpDrop 1, OpDrop 0])) 0 = 7"
  by (simp add: run_Cons run_Nil new_world_def NewArc_def heap0_def Clone_def Drop_def
      AddInt64_def LoadInt64_def Drop_releases_def Deref_def load_def Let_def)

subsection \<open>Counting clones and drops\<close>

text \<open>
  C2, for the programs of an owner. When every call is made on a handle that the program
  holds and has not dropped before, then after every prefix of the program the count that
  \<open>StrongCount\<close> returns through any handle is the number of clones plus one minus the
  number of drops, the counter is not negative, and the number of releasing calls of
  \<open>Drop\<close> so far is one if the counter is zero and none otherwise: the release happens
  once, at the step that reaches zero. The program is shorter than \<open>2 ^ 63 - 1\<close> calls, so
  that the 64-bit counter does not wrap.
\<close>

theorem disciplined_count_and_release:
  assumes "disciplined {} 1 ops" and "length ops < 2 ^ 63 - 1"
  shows "\<forall>k\<le>length ops.
           (\<forall>h\<in>set (handles (run (new_world s v) (take k ops))).
              sint (StrongCount (hp (run (new_world s v) (take k ops))) h) =
                int (clones (take k ops)) + 1 - int (drops (take k ops))) \<and>
           sint (LoadInt64 (hp (run (new_world s v) (take k ops))) (fresh s)) =
             int (clones (take k ops)) + 1 - int (drops (take k ops)) \<and>
           0 \<le> sint (LoadInt64 (hp (run (new_world s v) (take k ops))) (fresh s)) \<and>
           releases (new_world s v) (take k ops) =
             (if LoadInt64 (hp (run (new_world s v) (take k ops))) (fresh s) = 0 then 1 else 0)"
proof (intro allI impI)
  fix k
  assume k: "k \<le> length ops"
  let ?ops = "take k ops"
  let ?init = "new_world s v"
  let ?w = "run ?init ?ops"
  let ?p = "fresh s"
  have d: "disciplined {} (length (handles ?init)) ?ops"
    using assms(1) by (simp add: new_world_handles disciplined_take)
  have len: "length (handles ?init) + length ?ops < 2 ^ 63"
    using assms(2) by (simp add: new_world_handles)
  obtain D' where inv: "owner_inv ?p ?w D'"
    and n: "length (handles ?w) = 1 + clones ?ops"
    and c: "card D' = drops ?ops"
    using run_disciplined [OF new_world_inv d len] by (auto simp: new_world_handles)
  have le: "drops ?ops \<le> 1 + clones ?ops"
    using inv n c card_dropped_le [of D' "length (handles ?w)"] by (simp add: owner_inv_def)
  have r: "ref (mem (hp ?w) ?p) = of_nat (1 + clones ?ops - drops ?ops)"
    using inv n c by (simp add: owner_inv_def)
  have "1 + clones ?ops - drops ?ops < 2 ^ 63"
    using clones_le_length [of ?ops] assms(2) by (simp del: One_nat_def) linarith
  then have "sint (ref (mem (hp ?w) ?p)) = int (1 + clones ?ops - drops ?ops)"
    unfolding r by (rule sint_of_nat64)
  then have cnt: "sint (ref (mem (hp ?w) ?p)) = int (clones ?ops) + 1 - int (drops ?ops)"
    using le by simp
  have lt: "card ({} :: nat set) < length (handles ?init)"
    by (simp add: new_world_handles)
  have rel: "releases ?init ?ops = (if ref (mem (hp ?w) ?p) = 0 then 1 else 0)"
    using new_world_inv lt d len by (rule releases_disciplined)
  show "(\<forall>h\<in>set (handles ?w). sint (StrongCount (hp ?w) h) =
            int (clones ?ops) + 1 - int (drops ?ops)) \<and>
        sint (LoadInt64 (hp ?w) ?p) = int (clones ?ops) + 1 - int (drops ?ops) \<and>
        0 \<le> sint (LoadInt64 (hp ?w) ?p) \<and>
        releases ?init ?ops = (if LoadInt64 (hp ?w) ?p = 0 then 1 else 0)"
    using cnt le rel owner_inv_StrongCount [OF inv] by (simp add: LoadInt64_def)
qed

theorem disciplined_count_and_release_witness:
  "disciplined {} 1 [OpClone 0, OpDrop 0, OpDrop 1] \<and>
   length [OpClone 0, OpDrop 0, OpDrop 1] < (2::nat) ^ 63 - 1 \<and>
   (3::nat) \<le> length [OpClone 0, OpDrop 0, OpDrop 1] \<and>
   sint (LoadInt64 (hp (run (new_world heap0 7) [OpClone 0, OpDrop 0, OpDrop 1])) 0) = 0 \<and>
   releases (new_world heap0 7) [OpClone 0, OpDrop 0, OpDrop 1] = 1"
proof -
  have d: "disciplined {} 1 [OpClone 0, OpDrop 0, OpDrop 1]" by simp
  have l: "length [OpClone 0, OpDrop 0, OpDrop 1] < (2::nat) ^ 63 - 1" by simp
  have k: "(3::nat) \<le> length [OpClone 0, OpDrop 0, OpDrop 1]" by simp
  show ?thesis
    using disciplined_count_and_release [OF d l, of heap0 7, rule_format, OF k]
    by (simp add: run_Cons run_Nil new_world_def NewArc_def heap0_def Clone_def Drop_def
        AddInt64_def StrongCount_def LoadInt64_def Drop_releases_def Let_def)
qed

text \<open>
  C2, as the claim states it for every sequence, fails. After a clone the first handle is
  dropped twice; its second \<open>Drop\<close> releases. The clone still holds its pointer, and its
  own \<open>Drop\<close> takes the counter to \<open>-1\<close>, which \<open>StrongCount\<close> then returns. In the
  second program the clone is cloned after the release, which takes the counter back to
  one, and dropping that handle releases a second time.
\<close>

theorem undisciplined_count_negative:
  "sint (StrongCount (hp (run (new_world heap0 7) [OpClone 0, OpDrop 0, OpDrop 0, OpDrop 1]))
           (handles (run (new_world heap0 7) [OpClone 0, OpDrop 0, OpDrop 0, OpDrop 1]) ! 1)) = - 1 \<and>
   releases (new_world heap0 7) [OpClone 0, OpDrop 0, OpDrop 0, OpClone 1, OpDrop 2] = 2"
  by (simp add: run_Cons run_Nil new_world_def NewArc_def heap0_def Clone_def Drop_def
      AddInt64_def StrongCount_def LoadInt64_def Drop_releases_def Let_def)

subsection \<open>Sole ownership\<close>

text \<open>
  C3. On a handle with a pointer, \<open>TryUnwrap\<close> returns, and it succeeds exactly when
  the count is one. Then it returns the value of the block, the counter is zero and the
  pointer of the handle is nil. Otherwise it reports failure and leaves the handle and
  the heap, and so the count, as they were.
\<close>

theorem TryUnwrap_iff_sole_owner:
  assumes "ptr a = Some p"
  shows "\<exists>s' a' r. TryUnwrap s a = Some (s', a', r) \<and>
           (r \<noteq> None \<longleftrightarrow> StrongCount s a = 1) \<and>
           (StrongCount s a = 1 \<longrightarrow>
              r = Some (load s p) \<and> ptr a' = None \<and> LoadInt64 s' p = 0) \<and>
           (StrongCount s a \<noteq> 1 \<longrightarrow> r = None \<and> a' = a \<and> s' = s)"
  using assms
  by (simp add: TryUnwrap_def TryUnwrap_loop.simps StrongCount_def LoadInt64_def
      CompareAndSwapInt64_def load_def Let_def)

theorem TryUnwrap_iff_sole_owner_witness:
  "ptr \<lparr>ptr = Some 0\<rparr> = Some 0 \<and>
   (\<exists>s'. TryUnwrap (fst (NewArc heap0 7)) \<lparr>ptr = Some 0\<rparr> = Some (s', \<lparr>ptr = None\<rparr>, Some 7)) \<and>
   TryUnwrap (fst (Clone (fst (NewArc heap0 7)) \<lparr>ptr = Some 0\<rparr>)) \<lparr>ptr = Some 0\<rparr> =
     Some (fst (Clone (fst (NewArc heap0 7)) \<lparr>ptr = Some 0\<rparr>), \<lparr>ptr = Some 0\<rparr>, None)"
proof -
  have h: "ptr \<lparr>ptr = Some 0\<rparr> = Some 0"
    by simp
  show ?thesis
    using TryUnwrap_iff_sole_owner [OF h, of "fst (NewArc heap0 7)"]
      TryUnwrap_iff_sole_owner [OF h, of "fst (Clone (fst (NewArc heap0 7)) \<lparr>ptr = Some 0\<rparr>)"]
    by (auto simp: StrongCount_def LoadInt64_def NewArc_def heap0_def Clone_def AddInt64_def
        load_def Let_def Arc_ptr_update)
qed

text \<open>
  C6. On a handle with a pointer, \<open>CompareAndSwap\<close> returns true exactly when the count
  is one, and then the block holds the new value; otherwise the heap is as it was. The
  count is the same afterwards, and the old value passed in has no part in the outcome.
\<close>

theorem CompareAndSwap_sole_owner_replace:
  assumes "ptr a = Some p"
  shows "(snd (CompareAndSwap s a oldValue newValue) \<longleftrightarrow> StrongCount s a = 1) \<and>
         (StrongCount s a = 1 \<longrightarrow>
            load (fst (CompareAndSwap s a oldValue newValue)) p = newValue) \<and>
         (StrongCount s a \<noteq> 1 \<longrightarrow> fst (CompareAndSwap s a oldValue newValue) = s) \<and>
         StrongCount (fst (CompareAndSwap s a oldValue newValue)) a = StrongCount s a \<and>
         CompareAndSwap s a oldValue newValue = CompareAndSwap s a other newValue"
  using assms
  by (simp add: CompareAndSwap_def StrongCount_def LoadInt64_def load_def store_def)

theorem CompareAndSwap_sole_owner_replace_witness:
  "ptr \<lparr>ptr = Some 0\<rparr> = Some 0 \<and>
   snd (CompareAndSwap (fst (NewArc heap0 7)) \<lparr>ptr = Some 0\<rparr> 3 9) \<and>
   load (fst (CompareAndSwap (fst (NewArc heap0 7)) \<lparr>ptr = Some 0\<rparr> 3 9)) 0 = 9 \<and>
   \<not> snd (CompareAndSwap (fst (Clone (fst (NewArc heap0 7)) \<lparr>ptr = Some 0\<rparr>)) \<lparr>ptr = Some 0\<rparr> 7 9)"
proof -
  have h: "ptr \<lparr>ptr = Some 0\<rparr> = Some 0"
    by simp
  show ?thesis
    using CompareAndSwap_sole_owner_replace [OF h, of "fst (NewArc heap0 7)" 3 9 3]
      CompareAndSwap_sole_owner_replace
        [OF h, of "fst (Clone (fst (NewArc heap0 7)) \<lparr>ptr = Some 0\<rparr>)" 7 9 7]
    by (simp add: StrongCount_def LoadInt64_def NewArc_def heap0_def Clone_def AddInt64_def
        Let_def)
qed

subsection \<open>Weak handles\<close>



text \<open>
  C5. \<open>Downgrade\<close> is a function of the handle alone and has no access to the counter.
  On a handle with a pointer whose block has a count of at least one, \<open>Downgrade\<close>
  followed by \<open>Upgrade\<close> in the same heap returns a handle to the same block and leaves
  the count one higher. The count is below the largest 64-bit value, at which the
  increment would wrap.
\<close>

theorem Downgrade_then_Upgrade:
  assumes "ptr a = Some p"
    and "1 \<le> sint (StrongCount s a)"
    and "sint (StrongCount s a) < 2 ^ 63 - 1"
  shows "\<exists>w s'. Downgrade a = Some w \<and> wptr w = Some p \<and>
           Upgrade s w = (s', Some \<lparr>ptr = Some p\<rparr>) \<and>
           StrongCount s' \<lparr>ptr = Some p\<rparr> = StrongCount s a + 1 \<and>
           sint (StrongCount s' \<lparr>ptr = Some p\<rparr>) = sint (StrongCount s a) + 1"
proof -
  let ?r = "ref (mem s p)"
  have r: "1 \<le> sint ?r" "sint ?r < 2 ^ 63 - 1"
    using assms by (simp_all add: StrongCount_def LoadInt64_def)
  then have up: "sint (?r + 1) = sint ?r + 1"
    by (rule sint_succ64)
  then have "1 < sint (snd (AddInt64 s p 1))"
    using r by (simp add: AddInt64_snd)
  then have "Upgrade s \<lparr>wptr = Some p\<rparr> = (fst (AddInt64 s p 1), Some \<lparr>ptr = Some p\<rparr>)"
    by (simp add: Upgrade_def case_prod_beta)
  moreover have "Downgrade a = Some \<lparr>wptr = Some p\<rparr>"
    using assms(1) by (simp add: Downgrade_def)
  moreover have "StrongCount (fst (AddInt64 s p 1)) \<lparr>ptr = Some p\<rparr> = StrongCount s a + 1"
    using assms(1) by (simp add: StrongCount_def LoadInt64_def AddInt64_fst_ref)
  ultimately show ?thesis
    using up assms(1) by (simp add: StrongCount_def LoadInt64_def)
qed

theorem Downgrade_then_Upgrade_witness:
  "ptr \<lparr>ptr = Some 0\<rparr> = Some 0 \<and>
   1 \<le> sint (StrongCount (fst (NewArc heap0 7)) \<lparr>ptr = Some 0\<rparr>) \<and>
   sint (StrongCount (fst (NewArc heap0 7)) \<lparr>ptr = Some 0\<rparr>) < 2 ^ 63 - 1 \<and>
   Downgrade \<lparr>ptr = Some 0\<rparr> = Some \<lparr>wptr = Some 0\<rparr> \<and>
   snd (Upgrade (fst (NewArc heap0 7)) \<lparr>wptr = Some 0\<rparr>) = Some \<lparr>ptr = Some 0\<rparr> \<and>
   StrongCount (fst (Upgrade (fst (NewArc heap0 7)) \<lparr>wptr = Some 0\<rparr>)) \<lparr>ptr = Some 0\<rparr> = 2"
proof -
  have h1: "ptr \<lparr>ptr = Some 0\<rparr> = Some 0"
    by simp
  have c: "StrongCount (fst (NewArc heap0 7)) \<lparr>ptr = Some 0\<rparr> = 1"
    by (simp add: StrongCount_def LoadInt64_def NewArc_def heap0_def)
  have h2: "1 \<le> sint (StrongCount (fst (NewArc heap0 7)) \<lparr>ptr = Some 0\<rparr>)"
    by (simp add: c)
  have h3: "sint (StrongCount (fst (NewArc heap0 7)) \<lparr>ptr = Some 0\<rparr>) < 2 ^ 63 - 1"
    by (simp add: c)
  show ?thesis
    using Downgrade_then_Upgrade [OF h1 h2 h3] h2 h3
    by (auto simp: c Downgrade_def)
qed

subsection \<open>Scoped access\<close>



subsection \<open>Handles without a pointer\<close>




text \<open>
  \<open>MergeArcs\<close> is not among the methods above. It guards against an argument that is
  the nil pointer, not against a handle whose pointer is nil, and panics on one.
\<close>

lemma MergeArcs_nil_handle_panics:
  "MergeArcs heap0 t 0 [Some \<lparr>ptr = None\<rparr>] = Inl NilDereference"
  by (simp add: MergeArcs_def Deref_def)

section \<open>Properties of the future combinators\<close>

subsection \<open>The loop of \<open>All\<close>\<close>

lemma All_loop_Some:
  "All_loop fs i rs t = Some (rs', t') \<Longrightarrow> i \<le> length fs \<Longrightarrow> length rs = length fs \<Longrightarrow>
   rs' = take i rs @ map result (drop i fs) \<and> t \<le> t' \<and>
   (\<forall>j. i \<le> j \<and> j < length fs \<longrightarrow> (\<exists>d. done_at (fs ! j) = Some d \<and> d \<le> t'))"
proof (induction fs i rs t rule: All_loop.induct)
  case (1 futures i results t)
  show ?case
  proof (cases "i < length futures")
    case False
    then show ?thesis
      using "1.prems" by auto
  next
    case True
    then obtain d where d: "done_at (futures ! i) = Some d"
      using "1.prems"(1) by (cases "done_at (futures ! i)") (simp_all add: Get_def)
    let ?v = "result (futures ! i)"
    have g: "Get (futures ! i) t = Some (?v, max t d)"
      by (simp add: Get_def d)
    have rec: "All_loop futures (Suc i) (results[i := ?v]) (max t d) = Some (rs', t')"
      using "1.prems"(1) True g by simp
    have ih: "rs' = take (Suc i) (results[i := ?v]) @ map result (drop (Suc i) futures) \<and>
        max t d \<le> t' \<and>
        (\<forall>j. Suc i \<le> j \<and> j < length futures \<longrightarrow> (\<exists>d. done_at (futures ! j) = Some d \<and> d \<le> t'))"
      using "1.IH" [OF True g refl rec] True "1.prems"(3) by simp
    have "take (Suc i) (results[i := ?v]) = take i results @ [?v]"
      using True "1.prems"(3) by (simp add: take_Suc_conv_app_nth)
    moreover have "drop i futures = futures ! i # drop (Suc i) futures"
      using True by (simp add: Cons_nth_drop_Suc)
    ultimately have "rs' = take i results @ map result (drop i futures)"
      using ih by simp
    moreover have "\<forall>j. i \<le> j \<and> j < length futures \<longrightarrow> (\<exists>d. done_at (futures ! j) = Some d \<and> d \<le> t')"
    proof (intro allI impI)
      fix j assume j: "i \<le> j \<and> j < length futures"
      show "\<exists>d. done_at (futures ! j) = Some d \<and> d \<le> t'"
      proof (cases "j = i")
        case True
        then show ?thesis using d ih by auto
      next
        case False
        then show ?thesis using j ih by auto
      qed
    qed
    ultimately show ?thesis
      using ih by simp
  qed
qed

lemma All_loop_None:
  "All_loop fs i rs t = None \<Longrightarrow> \<exists>j. i \<le> j \<and> j < length fs \<and> done_at (fs ! j) = None"
proof (induction fs i rs t rule: All_loop.induct)
  case (1 futures i results t)
  show ?case
  proof (cases "i < length futures")
    case False
    then show ?thesis
      using "1.prems" by simp
  next
    case True
    show ?thesis
    proof (cases "done_at (futures ! i)")
      case None
      then show ?thesis using True by auto
    next
      case (Some d)
      then have g: "Get (futures ! i) t = Some (result (futures ! i), max t d)"
        by (simp add: Get_def)
      then have "All_loop futures (Suc i) (results[i := result (futures ! i)]) (max t d) = None"
        using "1.prems" True by simp
      then obtain j where "Suc i \<le> j \<and> j < length futures \<and> done_at (futures ! j) = None"
        using "1.IH" [OF True g refl] by blast
      then show ?thesis
        by (intro exI [of _ j]) simp
    qed
  qed
qed

text \<open>
  C7. The context of the combined future is not done when its goroutine starts. If the
  combined future completes, its result is the list of the results of the input futures,
  the result of input \<open>i\<close> at index \<open>i\<close> whatever the instants at which the inputs
  completed, and every input has completed by the instant at which the combined future
  does; it carries no error. If it never completes, some input never does.
\<close>

theorem All_results_in_input_order:
  "(case done_at (All zero None t fs) of
      None \<Rightarrow> \<exists>f\<in>set fs. done_at f = None
    | Some d \<Rightarrow>
        result (All zero None t fs) = map result fs \<and>
        (\<forall>i<length fs. result (All zero None t fs) ! i = result (fs ! i)) \<and>
        (\<forall>f\<in>set fs. \<exists>d'. done_at f = Some d' \<and> d' \<le> d) \<and> t \<le> d \<and>
        err (All zero None t fs) = None)"
proof (cases "All_loop fs 0 (replicate (length fs) zero) t")
  case None
  then obtain j where "j < length fs" "done_at (fs ! j) = None"
    using All_loop_None by blast
  then have "\<exists>f\<in>set fs. done_at f = None"
    by (metis nth_mem)
  then show ?thesis
    using None by (simp add: All_def New_def execute_def)
next
  case (Some r)
  obtain rs' t' where r: "r = (rs', t')"
    by (cases r)
  have l: "rs' = take 0 (replicate (length fs) zero) @ map result (drop 0 fs) \<and> t \<le> t' \<and>
      (\<forall>j. 0 \<le> j \<and> j < length fs \<longrightarrow> (\<exists>d. done_at (fs ! j) = Some d \<and> d \<le> t'))"
    using Some r by (intro All_loop_Some) simp_all
  then have "\<forall>f\<in>set fs. \<exists>d'. done_at f = Some d' \<and> d' \<le> t'"
    by (auto simp: in_set_conv_nth)
  then show ?thesis
    using Some r l by (simp add: All_def New_def execute_def)
qed

theorem All_results_in_input_order_witness:
  "All 0 None 1 [fut 10 9, fut 20 3, fut 30 5] =
     \<lparr>result = [10, 20, 30], done_at = Some 9, err = None\<rparr> \<and>
   done_at (All 0 None 1 [fut 10 9, \<lparr>result = 0, done_at = None, err = None\<rparr>, fut 30 5]) = None"
  using All_results_in_input_order [where zero = 0 and t = 1 and fs = "[fut 10 9, fut 20 3, fut 30 5]"]
  by (simp add: All_def New_def execute_def Get_def fut_def)

text \<open>
  When the context is done as the goroutine starts, the loop is not run: the combined
  future completes at once with the nil slice and the error of the context.
\<close>

lemma All_cancelled: "All zero (Some e) t fs = \<lparr>result = [], done_at = Some t, err = Some e\<rparr>"
  by (simp add: All_def New_def execute_def)

subsection \<open>\<open>Map\<close> and \<open>Then\<close>\<close>


end
